theory Spec2Isabelle
  imports Complex_Main
begin

section \<open>Python list slicing\<close>

text \<open>
  \<^verbatim>\<open>xs[a:b]\<close> on a Python list never raises: a negative bound counts from the end
  of the list and every bound is clamped to \<open>[0, len(xs)]\<close>; an empty range gives the
  empty list.  The result is a new list object.
\<close>

definition py_norm :: "int \<Rightarrow> int \<Rightarrow> int" where
  "py_norm n i = (if i < 0 then max 0 (i + n) else min i n)"

definition py_slice :: "'a list \<Rightarrow> int \<Rightarrow> int \<Rightarrow> 'a list" where
  "py_slice xs a b =
     (let n = int (length xs); lo = py_norm n a; hi = py_norm n b
      in take (nat (hi - lo)) (drop (nat lo) xs))"

section \<open>The round-robin slice\<close>

text \<open>
  \<^verbatim>\<open>
  end = min(self._idx + TEMPLATES_PER_TICK, len(self._loaded_templates))
  subset = self._loaded_templates[self._idx:end]
  if end - self._idx < TEMPLATES_PER_TICK:  # wrap
      subset += self._loaded_templates[:TEMPLATES_PER_TICK - (end - self._idx)]
  self._idx = (self._idx + TEMPLATES_PER_TICK) % len(self._loaded_templates)
  \<close>
  (FirstCheatWithUI.py, lines 244-248; Cheat.py, lines 112-116, has the same text over the
  module globals.)  The function is polymorphic in what the list holds.  Python's
  \<open>%\<close> with a positive divisor is non-negative, as \<open>mod\<close> on \<open>int\<close> is.
\<close>

definition select_subset :: "int \<Rightarrow> int \<Rightarrow> 'a list \<Rightarrow> 'a list" where
  "select_subset i T lib =
     (let end_i = min (i + T) (int (length lib));
          subset = py_slice lib i end_i
      in if end_i - i < T then subset @ py_slice lib 0 (T - (end_i - i)) else subset)"

definition advance :: "int \<Rightarrow> int \<Rightarrow> int \<Rightarrow> int" where
  "advance i T L = (i + T) mod L"




section \<open>Data of the detector\<close>

text \<open>
  One element of \<^verbatim>\<open>_loaded_templates\<close>: the dict built in \<^verbatim>\<open>_prepare_templates\<close>.
  The scaled image is a matrix of grey values.  Time stamps are the floats of
  \<^verbatim>\<open>time.perf_counter()\<close>, taken as real numbers.
\<close>

record entry =
  name :: string
  tmpl_small :: "nat list list"
  tw_s :: int
  th_s :: int
  last_click_ts :: real

record region =
  reg_left :: int
  reg_top :: int
  reg_width :: int
  reg_height :: int

text \<open>
  The locals that \<^verbatim>\<open>_run\<close> reads from \<^verbatim>\<open>self.settings\<close> before the loop
  (lines 218-227), under the names they have there.  No range is checked on any of them.
\<close>

record config =
  THRESH :: real
  SCALE :: real
  FPS_TARGET :: int
  TEMPLATES_PER_TICK :: int
  WIGGLE :: int
  HOVER_DELAY :: real
  COOLDOWN_S :: real
  simulate_only :: bool
  allow_real :: bool

text \<open>
  What the environment supplies to one pass of the loop: the four clock readings
  (\<open>t0\<close> at the head, \<open>now\<close> after the slice, \<open>t_fire\<close> at the time-stamp write,
  \<open>t_end\<close> before pacing), the result of \<^verbatim>\<open>matchTemplate\<close> and \<^verbatim>\<open>np.where\<close> for
  each library position (\<open>None\<close>: the call raises; otherwise \<^verbatim>\<open>zip(xs, ys)\<close>),
  whether capturing or scaling the frame raises, which call of the click sequence raises
  if any, and whether another thread calls \<^verbatim>\<open>stop()\<close> while the frame is captured.
\<close>

record tick =
  t0 :: real
  now :: real
  t_fire :: real
  t_end :: real
  hits :: "nat \<Rightarrow> (int \<times> int) list option"
  raises :: bool
  click_raises :: "nat option"
  stop_called :: bool

record worker =
  settings :: config
  stop_evt :: bool
  thread :: "nat option"
  loaded_templates :: "entry list"
  idx :: int

text \<open>What the worker does to the outside, and its writes of a time stamp.\<close>

datatype event =
    CheckStop bool
  | StopCalled
  | Grab
  | MatchTemplate nat
  | LogMatch nat int int
  | SetLastClick nat real
  | SetCursorPos int int
  | MouseEvent int int
  | Sleep real
  | LogClicked
  | LogClickFailed
  | LogNotSupported
  | LogMissing
  | LogCrashed
  | SetStatusStopped

text \<open>
  The pointer primitives: \<^verbatim>\<open>SetCursorPos\<close> (absolute move) and \<^verbatim>\<open>mouse_event\<close>
  (relative move \<open>0x0001\<close>, left button down \<open>0x0002\<close>, left button up \<open>0x0004\<close>).
\<close>

fun is_pointer_primitive :: "event \<Rightarrow> bool" where
  "is_pointer_primitive (SetCursorPos x y) = True"
| "is_pointer_primitive (MouseEvent f d) = True"
| "is_pointer_primitive e = False"

section \<open>Mapping a hit to the screen\<close>

text \<open>
  The doubles.  \<^verbatim>\<open>x_s\<close> and \<^verbatim>\<open>tw_s\<close> are integers, \<^verbatim>\<open>SCALE\<close> is a float, and
  \<^verbatim>\<open>/\<close> converts the integer to a double and divides in double precision: the result
  is the double nearest to the exact quotient, ties to the even significand.  A double
  has 53 significant bits and an exponent of at least -1022.  \<open>double_round x\<close> is the
  double nearest to the real \<open>x\<close>, for \<open>x\<close> within the range of the finite doubles.
\<close>

definition round_half_even :: "real \<Rightarrow> int" where
  "round_half_even y =
     (let f = \<lfloor>y\<rfloor>; r = y - of_int f
      in if r < 1 / 2 then f else if 1 / 2 < r then f + 1 else if even f then f else f + 1)"

definition double_exponent :: "real \<Rightarrow> int" where
  "double_exponent x = max \<lfloor>log 2 \<bar>x\<bar>\<rfloor> (- 1022)"

definition double_round :: "real \<Rightarrow> real" where
  "double_round x =
     (if x = 0 then 0
      else (let u = 2 powr of_int (double_exponent x - 52)
            in of_int (round_half_even (x / u)) * u))"

text \<open>
  \<^verbatim>\<open>cx = region["left"] + int((x_s + entry["tw_s"] // 2) / SCALE)\<close>, and the same for
  \<open>cy\<close>.  \<^verbatim>\<open>int()\<close> truncates towards zero.  With \<open>SCALE = 0\<close> the quotient is
  infinite or not a number and \<^verbatim>\<open>int()\<close> raises.  (So it does when the quotient is
  beyond the largest double, which takes a scale below \<open>2\<^sup>-\<^sup>9\<^sup>6\<^sup>0\<close>; scaling the frame
  by such a factor has raised before any hit is mapped.)
\<close>

definition py_int :: "real \<Rightarrow> int" where
  "py_int r = (if 0 \<le> r then \<lfloor>r\<rfloor> else \<lceil>r\<rceil>)"

definition map_coord :: "real \<Rightarrow> int \<Rightarrow> int \<Rightarrow> int \<Rightarrow> int option" where
  "map_coord S origin p_s size_s =
     (if S = 0 then None
      else Some (origin + py_int (double_round (double_round (of_int (p_s + size_s div 2)) / S))))"

text \<open>
  Cheat.py clicks through \<^verbatim>\<open>lowlevel_hover_click(cx, cy, offset=entry["offset"])\<close>,
  which adds the template's offset to the mapped point:
  \<^verbatim>\<open>tx, ty = x + offset[0], y + offset[1]\<close>.  The entries of FirstCheatWithUI.py have
  no offset.
\<close>

definition lowlevel_hover_click :: "int \<Rightarrow> int \<Rightarrow> int \<times> int \<Rightarrow> int \<Rightarrow> real \<Rightarrow> event list" where
  "lowlevel_hover_click x y offset jiggle hover_delay =
     (let tx = x + fst offset; ty = y + snd offset
      in [SetCursorPos tx ty, MouseEvent 1 jiggle, MouseEvent 1 (- jiggle), Sleep hover_delay,
          MouseEvent 2 0, Sleep (8 / 1000), MouseEvent 4 0])"

definition cheat_target :: "real \<Rightarrow> int \<Rightarrow> int \<Rightarrow> int \<Rightarrow> int \<Rightarrow> int option" where
  "cheat_target S origin p_s size_s d =
     (case map_coord S origin p_s size_s of None \<Rightarrow> None | Some c \<Rightarrow> Some (c + d))"

text \<open>
  The mapping in the words of the specification, before any rounding and in exact
  arithmetic: the centre in scaled coordinates, divided by the scale factor, plus the
  region origin, plus the offset.
\<close>

definition spec_map :: "real \<Rightarrow> int \<Rightarrow> int \<Rightarrow> int \<Rightarrow> int \<Rightarrow> real" where
  "spec_map S origin p_s size_s d =
     (of_int p_s + of_int size_s / 2) / S + of_int origin + of_int d"

section \<open>One pass of the detection loop\<close>

text \<open>
  The click of lines 268-279, inside its \<^verbatim>\<open>try\<close>.  The calls are made in order; the
  first one that raises ends the sequence and \<^verbatim>\<open>"Click failed"\<close> is logged instead of
  \<^verbatim>\<open>"clicked"\<close>.  \<^verbatim>\<open>time.sleep\<close> raises on a negative argument, so a negative
  \<open>HOVER_DELAY\<close> makes the fourth call raise.  An event of the trace is a call that was
  made, whether or not it returned.
\<close>

definition click :: "config \<Rightarrow> tick \<Rightarrow> int \<Rightarrow> int \<Rightarrow> event list" where
  "click cfg tk cx cy =
     (let calls = [SetCursorPos cx cy, MouseEvent 1 (WIGGLE cfg), MouseEvent 1 (- WIGGLE cfg),
                   Sleep (HOVER_DELAY cfg), MouseEvent 2 0, Sleep (8 / 1000), MouseEvent 4 0];
          k = (case click_raises tk of None \<Rightarrow> length calls | Some j \<Rightarrow> j);
          k' = (if HOVER_DELAY cfg < 0 then min k 3 else k)
      in if k' < length calls then take (Suc k') calls @ [LogClickFailed]
         else calls @ [LogClicked])"

text \<open>
  The body of the inner \<^verbatim>\<open>for x_s, y_s in zip(xs, ys)\<close> for the first hit (lines
  262-282): map the hit, log it, write the entry's time stamp, then click or not.
  \<open>WINDOWS\<close> tells whether \<^verbatim>\<open>win32api\<close> could be imported.  \<open>None\<close>: the mapping
  raised, before anything was logged or written.
\<close>

definition dispatch ::
  "config \<Rightarrow> bool \<Rightarrow> region \<Rightarrow> tick \<Rightarrow> nat \<Rightarrow> entry \<Rightarrow> int \<times> int \<Rightarrow> event list option" where
  "dispatch cfg WINDOWS reg tk i e h =
     (case map_coord (SCALE cfg) (reg_left reg) (fst h) (tw_s e) of
        None \<Rightarrow> None
      | Some cx \<Rightarrow>
         (case map_coord (SCALE cfg) (reg_top reg) (snd h) (th_s e) of
            None \<Rightarrow> None
          | Some cy \<Rightarrow>
              Some ([LogMatch i cx cy, SetLastClick i (t_fire tk)] @
                    (if \<not> simulate_only cfg \<and> allow_real cfg \<and> WINDOWS then click cfg tk cx cy
                     else if \<not> WINDOWS \<and> \<not> simulate_only cfg \<and> allow_real cfg
                          then [LogNotSupported]
                     else []))))"

text \<open>
  \<^verbatim>\<open>for entry in subset:\<close> (lines 253-286).  The subset holds references to entries of
  the library, here their positions, and the write to \<^verbatim>\<open>entry["last_click_ts"]\<close>
  changes the library's entry.  The result is the library, the events, and whether an
  exception escaped.  After a hit, \<^verbatim>\<open>clicked_this_frame\<close> ends both loops.
\<close>

fun scan ::
  "config \<Rightarrow> bool \<Rightarrow> region \<Rightarrow> tick \<Rightarrow> nat list \<Rightarrow> entry list \<Rightarrow> entry list \<times> event list \<times> bool" where
  "scan cfg WINDOWS reg tk [] lib = (lib, [], False)"
| "scan cfg WINDOWS reg tk (i # rest) lib =
     (if now tk - last_click_ts (lib ! i) < COOLDOWN_S cfg then scan cfg WINDOWS reg tk rest lib
      else (case hits tk i of
              None \<Rightarrow> (lib, [MatchTemplate i], True)
            | Some [] \<Rightarrow>
                (case scan cfg WINDOWS reg tk rest lib of
                   (lib', ev, crashed) \<Rightarrow> (lib', MatchTemplate i # ev, crashed))
            | Some (h # _) \<Rightarrow>
                (case dispatch cfg WINDOWS reg tk i (lib ! i) h of
                   None \<Rightarrow> (lib, [MatchTemplate i], True)
                 | Some ev \<Rightarrow>
                     (lib[i := (lib ! i)\<lparr>last_click_ts := t_fire tk\<rparr>],
                      MatchTemplate i # ev, False))))"

text \<open>
  The body of \<^verbatim>\<open>while not self._stop_evt.is_set():\<close> (lines 233-291), after the test.
  Nothing in the body reads the stop flag.
\<close>

definition frame_interval :: "config \<Rightarrow> real" where
  "frame_interval cfg = 1 / of_int (max 1 (FPS_TARGET cfg))"

definition cycle ::
  "config \<Rightarrow> bool \<Rightarrow> region \<Rightarrow> tick \<Rightarrow> worker \<Rightarrow> worker \<times> event list \<times> bool" where
  "cycle cfg WINDOWS reg tk w =
     (let w0 = (if stop_called tk then w\<lparr>stop_evt := True\<rparr> else w);
          ev0 = Grab # (if stop_called tk then [StopCalled] else [])
      in if raises tk then (w0, ev0, True)
         else if loaded_templates w0 = [] then (w0, ev0 @ [Sleep (3 / 10)], False)
         else
           (let lib = loaded_templates w0;
                subset = select_subset (idx w0) (TEMPLATES_PER_TICK cfg) [0..<length lib];
                w1 = w0\<lparr>idx := advance (idx w0) (TEMPLATES_PER_TICK cfg) (int (length lib))\<rparr>
            in (case scan cfg WINDOWS reg tk subset lib of
                  (lib', ev, crashed) \<Rightarrow>
                    (let w2 = w1\<lparr>loaded_templates := lib'\<rparr>;
                         sleep_for = frame_interval cfg - (t_end tk - t0 tk)
                     in if crashed then (w2, ev0 @ ev, True)
                        else (w2, ev0 @ ev @ (if sleep_for > 0 then [Sleep sleep_for] else []),
                              False)))))"

section \<open>The loop and the thread\<close>

text \<open>
  The \<^verbatim>\<open>while\<close> loop with its \<^verbatim>\<open>except\<close> and \<^verbatim>\<open>finally\<close>.  The loop of the
  source runs until the flag is set or an exception escapes; the list gives the
  environment of the passes that are observed, and when it is used up the observation
  ends with the next test of the flag.
\<close>

fun run_loop :: "config \<Rightarrow> bool \<Rightarrow> region \<Rightarrow> tick list \<Rightarrow> worker \<Rightarrow> worker \<times> event list" where
  "run_loop cfg WINDOWS reg [] w =
     (w, CheckStop (stop_evt w) # (if stop_evt w then [SetStatusStopped] else []))"
| "run_loop cfg WINDOWS reg (tk # tks) w =
     (if stop_evt w then (w, [CheckStop True, SetStatusStopped])
      else (case cycle cfg WINDOWS reg tk w of
              (w', ev, crashed) \<Rightarrow>
                if crashed then (w', CheckStop False # ev @ [LogCrashed, SetStatusStopped])
                else (case run_loop cfg WINDOWS reg tks w' of
                        (w'', ev') \<Rightarrow> (w'', CheckStop False # ev @ ev'))))"

text \<open>
  \<^verbatim>\<open>_prepare_templates\<close>, given the sorted image files of the folder and, for each,
  what \<^verbatim>\<open>cv2.imread\<close> and \<^verbatim>\<open>cv2.resize\<close> do with it: the file cannot be read and is
  skipped, or scaling it raises (as it does for a scale that is not positive), or it is
  scaled to an image of some width and height.  The result is the list built so far and
  whether an exception escaped.
\<close>

datatype loaded = Unreadable | ResizeRaises | Resized "nat list list" int int

fun prepare_templates :: "(string \<times> loaded) list \<Rightarrow> entry list \<times> bool" where
  "prepare_templates [] = ([], False)"
| "prepare_templates ((f, Unreadable) # fs) = prepare_templates fs"
| "prepare_templates ((f, ResizeRaises) # fs) = ([], True)"
| "prepare_templates ((f, Resized img w h) # fs) =
     (case prepare_templates fs of
        (es, r) \<Rightarrow>
          (\<lparr>name = f, tmpl_small = img, tw_s = w, th_s = h, last_click_ts = 0\<rparr> # es, r))"

text \<open>
  \<^verbatim>\<open>_run\<close>: with a dependency missing it logs and returns; otherwise it loads the
  templates, reads the settings and loops; an exception that escapes is logged and the
  status set to stopped.  \<open>missing\<close> is the module's list of that name.
\<close>

definition DetectorWorker_run ::
  "string list \<Rightarrow> bool \<Rightarrow> region \<Rightarrow> (string \<times> loaded) list \<Rightarrow> tick list \<Rightarrow> worker \<Rightarrow>
   worker \<times> event list" where
  "DetectorWorker_run missing WINDOWS reg files tks w =
     (if missing \<noteq> [] then (w, [LogMissing])
      else (case prepare_templates files of
              (lib, raised) \<Rightarrow>
                if raised then (w\<lparr>loaded_templates := lib\<rparr>, [LogCrashed, SetStatusStopped])
                else run_loop (settings w) WINDOWS reg tks (w\<lparr>loaded_templates := lib\<rparr>)))"

text \<open>
  Threads.  The list holds one flag for every thread object that was created and started:
  whether it is alive.  \<^verbatim>\<open>self._thread\<close> is a position of the list or \<open>None\<close>.
\<close>

definition DetectorWorker_init :: "config \<Rightarrow> worker" where
  "DetectorWorker_init s =
     \<lparr>settings = s, stop_evt = False, thread = None, loaded_templates = [], idx = 0\<rparr>"

definition is_alive :: "bool list \<Rightarrow> worker \<Rightarrow> bool" where
  "is_alive threads w =
     (case thread w of None \<Rightarrow> False | Some t \<Rightarrow> t < length threads \<and> threads ! t)"

definition start :: "bool list \<times> worker \<Rightarrow> bool list \<times> worker" where
  "start tw =
     (case tw of (threads, w) \<Rightarrow>
        if is_alive threads w then (threads, w)
        else (threads @ [True], w\<lparr>stop_evt := False, thread := Some (length threads)\<rparr>))"

definition stop :: "bool list \<times> worker \<Rightarrow> bool list \<times> worker" where
  "stop tw = (case tw of (threads, w) \<Rightarrow> (threads, w\<lparr>stop_evt := True\<rparr>))"

text \<open>
  What can happen to a worker from outside its loop: the owner calls \<^verbatim>\<open>start()\<close> or
  \<^verbatim>\<open>stop()\<close>, or the \<^verbatim>\<open>_run\<close> of a thread returns.
\<close>

datatype action = Start | Stop | Exit nat

fun act :: "action \<Rightarrow> bool list \<times> worker \<Rightarrow> bool list \<times> worker" where
  "act Start tw = start tw"
| "act Stop tw = stop tw"
| "act (Exit t) (threads, w) = (if t < length threads then threads[t := False] else threads, w)"

fun acts :: "action list \<Rightarrow> bool list \<times> worker \<Rightarrow> bool list \<times> worker" where
  "acts [] tw = tw"
| "acts (a # as) tw = acts as (act a tw)"

definition alive_count :: "bool list \<Rightarrow> nat" where
  "alive_count threads = length (filter (\<lambda>b. b) threads)"

text \<open>
  \<^verbatim>\<open>App._start\<close> (lines 464-493): return when already running or when a dependency is
  missing; otherwise mark the application running, snapshot the settings from the
  widgets, and create and start a new worker.  No value of the snapshot is checked.
\<close>

record app =
  running :: bool
  app_worker :: "worker option"



section \<open>Reading a trace\<close>

fun evaluated :: "event list \<Rightarrow> nat list" where
  "evaluated [] = []"
| "evaluated (MatchTemplate i # es) = i # evaluated es"
| "evaluated (e # es) = evaluated es"

fun dispatched :: "event list \<Rightarrow> nat list" where
  "dispatched [] = []"
| "dispatched (LogMatch i x y # es) = i # dispatched es"
| "dispatched (e # es) = dispatched es"

fun fire_times :: "nat \<Rightarrow> event list \<Rightarrow> real list" where
  "fire_times i [] = []"
| "fire_times i (SetLastClick j t # es) = (if j = i then t # fire_times i es else fire_times i es)"
| "fire_times i (e # es) = fire_times i es"

fun is_sleep :: "event \<Rightarrow> bool" where
  "is_sleep (Sleep d) = True"
| "is_sleep e = False"

fun is_check :: "event \<Rightarrow> bool" where
  "is_check (CheckStop b) = True"
| "is_check e = False"

text \<open>
  \<open>follows p q prev es\<close>: every event of \<open>es\<close> that satisfies \<open>q\<close> comes right after an
  event that satisfies \<open>p\<close>, where \<open>prev\<close> tells whether the event before \<open>es\<close> does.
\<close>

fun follows :: "(event \<Rightarrow> bool) \<Rightarrow> (event \<Rightarrow> bool) \<Rightarrow> bool \<Rightarrow> event list \<Rightarrow> bool" where
  "follows p q prev [] = True"
| "follows p q prev (e # es) = ((if q e then prev else True) \<and> follows p q (p e) es)"

text \<open>Every sleep of the trace comes right after a test of the stop flag.\<close>

definition sleeps_checked :: "event list \<Rightarrow> bool" where
  "sleeps_checked es = follows is_check is_sleep False es"

text \<open>No sleep of the trace begins after \<^verbatim>\<open>stop()\<close> was called.\<close>

fun no_sleep_after_stop :: "event list \<Rightarrow> bool" where
  "no_sleep_after_stop [] = True"
| "no_sleep_after_stop (StopCalled # es) = (\<forall>e \<in> set es. \<not> is_sleep e)"
| "no_sleep_after_stop (e # es) = no_sleep_after_stop es"

text \<open>Every capture of the trace comes right after a test that found the flag clear.\<close>

definition heads_checked :: "event list \<Rightarrow> bool" where
  "heads_checked es = follows (\<lambda>e. e = CheckStop False) (\<lambda>e. e = Grab) False es"

text \<open>
  The clock is monotonic: the readings of the passes, in the order they are taken, never
  decrease.  \<open>t\<close> is the last reading before the first pass of the list.
\<close>

fun clock_ok :: "real \<Rightarrow> tick list \<Rightarrow> bool" where
  "clock_ok t [] = True"
| "clock_ok t (tk # tks) =
     (t \<le> t0 tk \<and> t0 tk \<le> now tk \<and> now tk \<le> t_fire tk \<and> t_fire tk \<le> t_end tk \<and>
      clock_ok (t_end tk) tks)"

text \<open>
  The test of line 254 for the entry at position \<open>i\<close>: it is still cooling down and is
  passed over.  An entry matches in a pass when it is not cooling down and the correlation
  gives at least one hit; it gives nothing when it is cooling down or the correlation
  returns no hit.
\<close>

definition cooling :: "config \<Rightarrow> tick \<Rightarrow> entry list \<Rightarrow> nat \<Rightarrow> bool" where
  "cooling cfg tk lib i = (now tk - last_click_ts (lib ! i) < COOLDOWN_S cfg)"

definition is_match :: "config \<Rightarrow> tick \<Rightarrow> entry list \<Rightarrow> nat \<Rightarrow> bool" where
  "is_match cfg tk lib i =
     (\<not> cooling cfg tk lib i \<and> (case hits tk i of Some (h # hs) \<Rightarrow> True | _ \<Rightarrow> False))"


text \<open>
  \<open>only_fired lib ev lib'\<close>: the library \<open>lib'\<close> is \<open>lib\<close> except that the time stamp of
  each entry with a write in the trace \<open>ev\<close> is the value of its last write.
\<close>

definition only_fired :: "entry list \<Rightarrow> event list \<Rightarrow> entry list \<Rightarrow> bool" where
  "only_fired lib ev lib' =
     (length lib' = length lib \<and>
      (\<forall>i < length lib.
         lib' ! i = (lib ! i)\<lparr>last_click_ts :=
           (if fire_times i ev = [] then last_click_ts (lib ! i) else last (fire_times i ev))\<rparr>))"

text \<open>
  \<open>spaced cd l ts\<close>: each time of \<open>ts\<close> is at least \<open>cd\<close> after the one before it, the
  first at least \<open>cd\<close> after \<open>l\<close>.
\<close>

fun spaced :: "real \<Rightarrow> real \<Rightarrow> real list \<Rightarrow> bool" where
  "spaced cd l [] = True"
| "spaced cd l (t # ts) = (l + cd \<le> t \<and> spaced cd t ts)"

section \<open>Example data\<close>

text \<open>
  The default settings of FirstCheatWithUI.py with real clicks switched on, and the same
  with simulation on; a host with \<^verbatim>\<open>win32api\<close>; a library of two templates of scaled
  size 25 x 25; a pass in which both templates match.
\<close>

definition cfg_click :: config where
  "cfg_click = \<lparr>THRESH = 8 / 10, SCALE = 1 / 2, FPS_TARGET = 20, TEMPLATES_PER_TICK = 4,
     WIGGLE = 2, HOVER_DELAY = 3 / 100, COOLDOWN_S = 1 / 4, simulate_only = False,
     allow_real = True\<rparr>"

definition cfg_sim :: config where
  "cfg_sim = cfg_click\<lparr>simulate_only := True\<rparr>"

definition cfg_two :: config where
  "cfg_two = cfg_sim\<lparr>TEMPLATES_PER_TICK := 2\<rparr>"

definition cfg_bad :: config where
  "cfg_bad = cfg_two\<lparr>THRESH := 2\<rparr>"

definition reg0 :: region where
  "reg0 = \<lparr>reg_left = 288, reg_top = 162, reg_width = 1000, reg_height = 800\<rparr>"

definition tmpl :: "string \<Rightarrow> entry" where
  "tmpl f = \<lparr>name = f, tmpl_small = [], tw_s = 25, th_s = 25, last_click_ts = 0\<rparr>"

definition lib2 :: "entry list" where
  "lib2 = [tmpl ''a.png'', tmpl ''b.png'']"

definition tick_at :: "real \<Rightarrow> tick" where
  "tick_at t = \<lparr>t0 = t, now = t + 1 / 100, t_fire = t + 2 / 100, t_end = t + 3 / 100,
     hits = (\<lambda>i. Some [(100, 150)]), raises = False, click_raises = None,
     stop_called = False\<rparr>"

definition worker2 :: worker where
  "worker2 = (DetectorWorker_init cfg_two)\<lparr>loaded_templates := lib2\<rparr>"

text \<open>
  A pass in which nothing matches; a pass during which \<^verbatim>\<open>stop()\<close> is called; three
  passes 0.1 s and 0.2 s apart; the worker after the first of them, in which the first
  template fired; a worker with a single template and four templates per pass; an
  application that is not running.
\<close>

definition tick_none :: tick where
  "tick_none = (tick_at 10)\<lparr>hits := (\<lambda>i. Some [])\<rparr>"

definition tick_stop :: tick where
  "tick_stop = (tick_at 10)\<lparr>stop_called := True\<rparr>"

definition ticks3 :: "tick list" where
  "ticks3 = [tick_at 10, tick_at (101 / 10), tick_at (103 / 10)]"

definition worker2_fired :: worker where
  "worker2_fired =
     worker2\<lparr>loaded_templates := [(tmpl ''a.png'')\<lparr>last_click_ts := 501 / 50\<rparr>, tmpl ''b.png'']\<rparr>"

definition worker1 :: worker where
  "worker1 = (DetectorWorker_init cfg_sim)\<lparr>loaded_templates := [tmpl ''a.png'']\<rparr>"

definition app0 :: app where
  "app0 = \<lparr>running = False, app_worker = None\<rparr>"

definition worker_bad :: worker where
  "worker_bad = (DetectorWorker_init cfg_bad)\<lparr>thread := Some 0\<rparr>"

text \<open>
  Every thread of the list that is alive is the one the worker holds in \<^verbatim>\<open>_thread\<close>.
\<close>

definition owns_alive :: "bool list \<times> worker \<Rightarrow> bool" where
  "owns_alive tw = (\<forall>t < length (fst tw). fst tw ! t \<longrightarrow> thread (snd tw) = Some t)"



text \<open>The doubles that the literals \<^verbatim>\<open>0.4\<close> and \<^verbatim>\<open>0.55\<close> denote.\<close>

definition double_0_4 :: real where
  "double_0_4 = 3602879701896397 / 2 ^ 53"

definition double_0_55 :: real where
  "double_0_55 = 4953959590107546 / 2 ^ 53"

section \<open>Facts about traces\<close>

lemma click_set:
  "e \<in> set (click cfg tk cx cy) \<Longrightarrow>
     (\<exists>x y. e = SetCursorPos x y) \<or> (\<exists>f d. e = MouseEvent f d) \<or> (\<exists>d. e = Sleep d) \<or>
     e = LogClickFailed \<or> e = LogClicked"
  by (auto simp: click_def Let_def split: if_splits dest!: in_set_takeD)

lemma evaluated_append: "evaluated (xs @ ys) = evaluated xs @ evaluated ys"
  by (induction xs rule: evaluated.induct) simp_all

lemma dispatched_append: "dispatched (xs @ ys) = dispatched xs @ dispatched ys"
  by (induction xs rule: dispatched.induct) simp_all

lemma fire_times_append: "fire_times i (xs @ ys) = fire_times i xs @ fire_times i ys"
  by (induction i xs rule: fire_times.induct) simp_all

lemma evaluated_nil: "(\<And>i. MatchTemplate i \<notin> set xs) \<Longrightarrow> evaluated xs = []"
  by (induction xs rule: evaluated.induct) auto


lemma fire_times_nil: "(\<And>t. SetLastClick i t \<notin> set xs) \<Longrightarrow> fire_times i xs = []"
  by (induction i xs rule: fire_times.induct) auto

lemma evaluated_click: "evaluated (click cfg tk cx cy) = []"
  by (rule evaluated_nil) (auto dest: click_set)


lemma fire_times_click: "fire_times i (click cfg tk cx cy) = []"
  by (rule fire_times_nil) (auto dest: click_set)

lemma dispatch_evaluated: "dispatch cfg W reg tk i e h = Some ev \<Longrightarrow> evaluated ev = []"
  by (auto simp: dispatch_def evaluated_click split: option.splits if_splits)


lemma dispatch_fire_times:
  "dispatch cfg W reg tk i e h = Some ev \<Longrightarrow>
     fire_times j ev = (if j = i then [t_fire tk] else [])"
  by (auto simp: dispatch_def fire_times_click split: option.splits if_splits)


section \<open>The nearest double\<close>

text \<open>
  Rounding to a double moves a value of at least 1 by at most \<open>2\<^sup>-\<^sup>5\<^sup>3\<close> of itself, and
  leaves an integer below \<open>2\<^sup>5\<^sup>3\<close> as it is.
\<close>

lemma round_half_even_error: "\<bar>of_int (round_half_even y) - y\<bar> \<le> 1 / 2"
  unfolding round_half_even_def Let_def by (auto simp: abs_le_iff)

lemma round_half_even_of_int: "round_half_even (of_int m) = m"
  by (simp add: round_half_even_def)

lemma round_half_even_nonneg: "0 \<le> y \<Longrightarrow> 0 \<le> round_half_even y"
  unfolding round_half_even_def Let_def by (auto simp: add_nonneg_nonneg)

lemma double_round_nonneg: "0 \<le> x \<Longrightarrow> 0 \<le> double_round x"
  by (simp add: double_round_def Let_def round_half_even_nonneg)

lemma double_round_error:
  assumes x: "1 \<le> x"
  shows "\<bar>double_round x - x\<bar> \<le> x / 2 ^ 53"
proof -
  have x0: "0 < x" using x by simp
  define e where "e = \<lfloor>log 2 x\<rfloor>"
  have "0 \<le> log 2 x" using x by simp
  then have e1: "0 \<le> e" unfolding e_def by simp
  have "double_exponent x = max e (- 1022)" using x0 by (simp add: double_exponent_def e_def)
  then have de: "double_exponent x = e" using e1 by simp
  define u :: real where "u = 2 powr of_int (e - 52)"
  have u0: "0 < u" by (simp add: u_def)
  have "of_int e \<le> log 2 x" unfolding e_def by simp
  then have pe: "(2::real) powr of_int e \<le> x" using x0 by (simp add: le_log_iff)
  have u2: "u = 2 powr of_int e / 2 ^ 52"
    unfolding u_def by (simp add: powr_diff powr_realpow[symmetric])
  have nz: "x \<noteq> 0" using x0 by simp
  have dr: "double_round x = of_int (round_half_even (x / u)) * u"
    unfolding double_round_def Let_def de u_def using nz by simp
  have "double_round x - x = (of_int (round_half_even (x / u)) - x / u) * u"
    using u0 by (simp add: dr left_diff_distrib)
  then have "\<bar>double_round x - x\<bar> = \<bar>of_int (round_half_even (x / u)) - x / u\<bar> * u"
    using u0 by (simp add: abs_mult)
  also have "\<dots> \<le> (1 / 2) * u"
    using round_half_even_error[of "x / u"] u0 by (intro mult_right_mono) simp_all
  also have "\<dots> = 2 powr of_int e / 2 ^ 53" by (simp add: u2)
  also have "\<dots> \<le> x / 2 ^ 53" using pe by (simp add: divide_right_mono)
  finally show ?thesis .
qed

lemma double_round_of_int:
  assumes "0 \<le> n" "n < 2 ^ 53"
  shows "double_round (of_int n) = of_int n"
proof (cases "n = 0")
  case True
  then show ?thesis by (simp add: double_round_def)
next
  case False
  with assms have n1: "1 \<le> n" by simp
  define e where "e = \<lfloor>log 2 (of_int n)\<rfloor>"
  have "0 \<le> log 2 (of_int n)" using n1 by simp
  then have e0: "0 \<le> e" by (simp add: e_def)
  have "(of_int n :: real) < 2 ^ 53" using assms(2) by (metis of_int_less_iff of_int_numeral of_int_power)
  then have "log 2 (of_int n) < 53" using n1 by (simp add: log_less_iff powr_realpow[symmetric])
  then have e52: "e \<le> 52" unfolding e_def by (simp add: floor_le_iff)
  have "double_exponent (of_int n) = max e (- 1022)"
    using n1 by (simp add: double_exponent_def e_def)
  then have de: "double_exponent (of_int n) = e" using e0 by simp
  define k where "k = nat (52 - e)"
  have "(2::real) powr of_int (e - 52) = 2 powr (- real k)"
    using e52 by (simp add: k_def)
  also have "\<dots> = 1 / 2 ^ k"
    by (simp add: powr_minus powr_realpow inverse_eq_divide)
  finally have u: "(2::real) powr of_int (e - 52) = 1 / 2 ^ k" .
  then have u': "(2::real) powr (of_int e - 52) = 1 / 2 ^ k" by simp
  have q: "(of_int n :: real) * 2 ^ k = of_int (n * 2 ^ k)" by simp
  have nz: "(of_int n :: real) \<noteq> 0" using n1 by simp
  have "double_round (of_int n) = of_int (round_half_even (of_int n * 2 ^ k)) / 2 ^ k"
    unfolding double_round_def Let_def de using nz by (simp add: u')
  also have "\<dots> = of_int (n * 2 ^ k) / 2 ^ k"
    by (simp only: q round_half_even_of_int)
  finally show ?thesis by simp
qed

lemma double_round_numeral:
  "(numeral n :: int) < 2 ^ 53 \<Longrightarrow> double_round (numeral n) = numeral n"
  using double_round_of_int[of "numeral n"] by simp

lemma double_round_binade:
  assumes "2 ^ e \<le> x" "x < 2 ^ Suc e" "e \<le> 52"
  shows "double_round x = of_int (round_half_even (x * 2 ^ (52 - e))) / 2 ^ (52 - e)"
proof -
  have x0: "0 < x" using assms(1) by (smt (verit) zero_less_power)
  have "(2::real) powr real_of_int (int e) \<le> x \<and> x < 2 powr (real_of_int (int e) + 1)"
    using assms(1,2) by (simp add: powr_realpow powr_add)
  then have fl: "\<lfloor>log 2 x\<rfloor> = int e" using x0 by (simp add: floor_log_eq_powr_iff)
  have de: "double_exponent x = int e" using x0 by (simp add: double_exponent_def fl)
  have "(2::real) powr of_int (int e - 52) = 2 powr (- real (52 - e))"
    using assms(3) by (simp add: of_nat_diff)
  also have "\<dots> = 1 / 2 ^ (52 - e)"
    by (simp add: powr_minus powr_realpow inverse_eq_divide)
  finally have u: "(2::real) powr (real e - 52) = 1 / 2 ^ (52 - e)" by simp
  have nz: "x \<noteq> 0" using x0 by simp
  show ?thesis unfolding double_round_def Let_def de using nz by (simp add: u)
qed

section \<open>Simulation never touches the pointer\<close>

lemma dispatch_simulate:
  "simulate_only cfg \<Longrightarrow> dispatch cfg W reg tk i e h = Some ev \<Longrightarrow>
     filter is_pointer_primitive ev = []"
  by (auto simp: dispatch_def split: option.splits)

lemma scan_simulate:
  "simulate_only cfg \<Longrightarrow> scan cfg W reg tk sub lib = (lib', ev, cr) \<Longrightarrow>
     filter is_pointer_primitive ev = []"
proof (induction sub arbitrary: lib' ev cr)
  case Nil
  then show ?case by simp
next
  case (Cons i rest)
  then show ?case
    by (auto split: if_splits option.splits list.splits prod.splits dest: dispatch_simulate)
qed

lemma cycle_simulate:
  "simulate_only cfg \<Longrightarrow> cycle cfg W reg tk w = (w', ev, cr) \<Longrightarrow>
     filter is_pointer_primitive ev = []"
  by (auto simp: cycle_def Let_def split: if_splits prod.splits dest: scan_simulate)

lemma run_loop_simulate:
  "simulate_only cfg \<Longrightarrow> filter is_pointer_primitive (snd (run_loop cfg W reg tks w)) = []"
proof (induction tks arbitrary: w)
  case Nil
  then show ?case by simp
next
  case (Cons tk tks)
  show ?case
  proof (cases "cycle cfg W reg tk w")
    case (fields w' ev cr)
    have ev: "filter is_pointer_primitive ev = []"
      using cycle_simulate[OF Cons.prems fields] .
    show ?thesis
    proof (cases "run_loop cfg W reg tks w'")
      case (Pair w'' ev')
      have "filter is_pointer_primitive ev' = []"
        using Cons.IH[OF Cons.prems, of w'] Pair by simp
      with ev fields Pair show ?thesis by simp
    qed
  qed
qed

text \<open>
  C1.  When \<open>simulate_only\<close> is set, a whole run of the worker thread invokes no pointer
  primitive (neither \<^verbatim>\<open>SetCursorPos\<close> nor any \<^verbatim>\<open>mouse_event\<close>): whatever
  \<open>allow_real\<close> and the other settings are, whether or not the host has
  \<^verbatim>\<open>win32api\<close>, and for any number of passes with any matches in them.
\<close>

theorem simulate_only_no_pointer_primitive:
  "simulate_only (settings w) \<Longrightarrow>
     filter is_pointer_primitive (snd (DetectorWorker_run missing W reg files tks w)) = []"
  by (simp add: DetectorWorker_run_def run_loop_simulate split: prod.splits)

text \<open>
  The instance: one template that matches in two passes, real clicks allowed, on a host
  with \<^verbatim>\<open>win32api\<close>.  Both matches are dispatched and the pointer is never touched;
  the same run with simulation off does touch it.
\<close>

theorem simulate_only_no_pointer_primitive_witness:
  "simulate_only (settings (DetectorWorker_init cfg_sim)) \<and>
   filter is_pointer_primitive
     (snd (DetectorWorker_run [] True reg0 [(''a.png'', Resized [] 25 25)]
        [tick_at 10, tick_at 11] (DetectorWorker_init cfg_sim))) = [] \<and>
   dispatched
     (snd (DetectorWorker_run [] True reg0 [(''a.png'', Resized [] 25 25)]
        [tick_at 10, tick_at 11] (DetectorWorker_init cfg_sim))) = [0, 0] \<and>
   filter is_pointer_primitive
     (snd (DetectorWorker_run [] True reg0 [(''a.png'', Resized [] 25 25)]
        [tick_at 10, tick_at 11] (DetectorWorker_init cfg_click))) \<noteq> []"
proof -
  have s: "simulate_only (settings (DetectorWorker_init cfg_sim))"
    by (simp add: DetectorWorker_init_def cfg_sim_def)
  have d: "dispatched
     (snd (DetectorWorker_run [] True reg0 [(''a.png'', Resized [] 25 25)]
        [tick_at 10, tick_at 11] (DetectorWorker_init cfg_sim))) = [0, 0]"
    by (simp add: DetectorWorker_run_def DetectorWorker_init_def cfg_sim_def cfg_click_def
        reg0_def tick_at_def cycle_def select_subset_def py_slice_def py_norm_def advance_def
        Let_def dispatch_def map_coord_def py_int_def double_round_numeral frame_interval_def)
  have c: "filter is_pointer_primitive
     (snd (DetectorWorker_run [] True reg0 [(''a.png'', Resized [] 25 25)]
        [tick_at 10, tick_at 11] (DetectorWorker_init cfg_click))) \<noteq> []"
    by (simp add: DetectorWorker_run_def DetectorWorker_init_def cfg_sim_def cfg_click_def
        reg0_def tick_at_def cycle_def select_subset_def py_slice_def py_norm_def advance_def
        Let_def dispatch_def map_coord_def py_int_def double_round_numeral frame_interval_def click_def)
  show ?thesis
    using s d c
      simulate_only_no_pointer_primitive[OF s, of "[]" True reg0
        "[(''a.png'', Resized [] 25 25)]" "[tick_at 10, tick_at 11]"]
    by simp
qed

lemmas example_defs = cfg_click_def cfg_sim_def cfg_two_def cfg_bad_def reg0_def tmpl_def lib2_def
  tick_at_def worker2_def tick_none_def tick_stop_def ticks3_def worker2_fired_def worker1_def
  app0_def worker_bad_def DetectorWorker_init_def

lemmas loop_defs = cycle_def select_subset_def py_slice_def py_norm_def advance_def Let_def
  dispatch_def map_coord_def py_int_def double_round_numeral frame_interval_def click_def

section \<open>One action in a pass\<close>







lemma cycle_scan:
  assumes "\<not> raises tk" "loaded_templates w \<noteq> []"
    and "scan cfg W reg tk (select_subset (idx w) (TEMPLATES_PER_TICK cfg) [0..<length (loaded_templates w)])
           (loaded_templates w) = (lib', ev, cr)"
    and "cycle cfg W reg tk w = (w', ev', cr')"
  shows "dispatched ev' = dispatched ev \<and> evaluated ev' = evaluated ev \<and> cr' = cr \<and>
         loaded_templates w' = lib' \<and> (\<forall>i. fire_times i ev' = fire_times i ev)"
  using assms
  by (auto simp: cycle_def Let_def dispatched_append evaluated_append fire_times_append split: if_splits)




section \<open>Only a firing writes the library\<close>

lemma only_fired_trans:
  assumes "only_fired lib ev lib'" and "only_fired lib' ev' lib''"
  shows "only_fired lib (ev @ ev') lib''"
  using assms by (auto simp: only_fired_def fire_times_append)

lemma only_fired_cong:
  "only_fired lib ev lib' \<Longrightarrow> (\<And>i. fire_times i ev' = fire_times i ev) \<Longrightarrow> only_fired lib ev' lib'"
  by (simp add: only_fired_def)

lemma fire_times_map: "fire_times i (map MatchTemplate xs) = []"
  by (induction xs) simp_all

lemma scan_only_fired:
  "scan cfg W reg tk sub lib = (lib', ev, cr) \<Longrightarrow> only_fired lib ev lib'"
proof (induction sub arbitrary: lib' ev cr)
  case Nil
  then show ?case by (simp add: only_fired_def)
next
  case (Cons i rest)
  show ?case
  proof (cases "now tk - last_click_ts (lib ! i) < COOLDOWN_S cfg")
    case True
    with Cons show ?thesis by simp
  next
    case False
    note nc = this
    show ?thesis
    proof (cases "hits tk i")
      case None
      with nc Cons.prems show ?thesis by (auto simp: only_fired_def)
    next
      case (Some hs)
      show ?thesis
      proof (cases hs)
        case Nil
        obtain l1 e1 c1 where r: "scan cfg W reg tk rest lib = (l1, e1, c1)"
          by (metis prod_cases3)
        from Cons.IH[OF r] have "only_fired lib e1 l1" .
        then have "only_fired lib (MatchTemplate i # e1) l1"
          by (rule only_fired_cong) simp
        with nc Some Nil r Cons.prems show ?thesis by auto
      next
        case (Cons h hs')
        show ?thesis
        proof (cases "dispatch cfg W reg tk i (lib ! i) h")
          case None
          with nc Some Cons Cons.prems show ?thesis by (auto simp: only_fired_def)
        next
          case (Some dev)
          from dispatch_fire_times[OF Some]
          have f: "\<And>j. fire_times j (MatchTemplate i # dev) = (if j = i then [t_fire tk] else [])"
            by simp
          have "only_fired lib (MatchTemplate i # dev) (lib[i := (lib ! i)\<lparr>last_click_ts := t_fire tk\<rparr>])"
            unfolding only_fired_def f by (auto simp: nth_list_update)
          with nc \<open>hits tk i = Some hs\<close> Cons Some Cons.prems show ?thesis by auto
        qed
      qed
    qed
  qed
qed

lemma cycle_only_fired:
  assumes "cycle cfg W reg tk w = (w', ev, cr)"
  shows "only_fired (loaded_templates w) ev (loaded_templates w')"
proof (cases "raises tk \<or> loaded_templates w = []")
  case True
  with assms show ?thesis by (auto simp: cycle_def Let_def only_fired_def split: if_splits)
next
  case False
  obtain lib' sev scr where sc: "scan cfg W reg tk (select_subset (idx w) (TEMPLATES_PER_TICK cfg) [0..<length (loaded_templates w)])
           (loaded_templates w) = (lib', sev, scr)" by (metis prod_cases3)
  from cycle_scan[OF _ _ sc assms] False scan_only_fired[OF sc] show ?thesis
    by (auto intro: only_fired_cong)
qed

text \<open>
  C9.  Over a whole run of the loop the library keeps its length and every entry keeps
  its name, image and size; the time stamp of an entry is its initial value if the
  entry never fired in the run, and otherwise the time of its own last firing.
\<close>

theorem library_frame:
  "run_loop cfg W reg tks w = (w', ev) \<Longrightarrow> only_fired (loaded_templates w) ev (loaded_templates w')"
proof (induction tks arbitrary: w w' ev)
  case Nil
  then show ?case by (cases "stop_evt w") (auto simp: only_fired_def)
next
  case (Cons tk tks)
  show ?case
  proof (cases "stop_evt w")
    case True
    with Cons.prems show ?thesis by (auto simp: only_fired_def)
  next
    case False
    obtain w1 e1 c1 where c: "cycle cfg W reg tk w = (w1, e1, c1)" by (metis prod_cases3)
    have o1: "only_fired (loaded_templates w) e1 (loaded_templates w1)"
      using cycle_only_fired[OF c] .
    show ?thesis
    proof (cases c1)
      case True
      have "only_fired (loaded_templates w) (CheckStop False # e1 @ [LogCrashed, SetStatusStopped]) (loaded_templates w1)"
        using o1 by (rule only_fired_cong) (simp add: fire_times_append)
      with False c True Cons.prems show ?thesis by auto
    next
      case nc: False
      obtain w2 e2 where r: "run_loop cfg W reg tks w1 = (w2, e2)" by (cases "run_loop cfg W reg tks w1")
      from Cons.IH[OF r] have o2: "only_fired (loaded_templates w1) e2 (loaded_templates w2)" .
      have "only_fired (loaded_templates w) (CheckStop False # e1 @ e2) (loaded_templates w2)"
        using only_fired_trans[OF o1 o2] by (rule only_fired_cong) simp
      with False c nc r Cons.prems show ?thesis by auto
    qed
  qed
qed

text \<open>
  The instance: three passes over two templates; the first fires twice, the second once.
\<close>

theorem library_frame_witness:
  "only_fired (loaded_templates worker2) (snd (run_loop cfg_two True reg0 ticks3 worker2))
     (loaded_templates (fst (run_loop cfg_two True reg0 ticks3 worker2))) \<and>
   fire_times 0 (snd (run_loop cfg_two True reg0 ticks3 worker2)) = [501 / 50, 258 / 25] \<and>
   fire_times 1 (snd (run_loop cfg_two True reg0 ticks3 worker2)) = [253 / 25] \<and>
   loaded_templates (fst (run_loop cfg_two True reg0 ticks3 worker2)) =
     [(tmpl ''a.png'')\<lparr>last_click_ts := 258 / 25\<rparr>, (tmpl ''b.png'')\<lparr>last_click_ts := 253 / 25\<rparr>]"
proof -
  have r: "run_loop cfg_two True reg0 ticks3 worker2 =
    (fst (run_loop cfg_two True reg0 ticks3 worker2), snd (run_loop cfg_two True reg0 ticks3 worker2))"
    by simp
  have e: "fire_times 0 (snd (run_loop cfg_two True reg0 ticks3 worker2)) = [501 / 50, 258 / 25]"
    "fire_times 1 (snd (run_loop cfg_two True reg0 ticks3 worker2)) = [253 / 25]"
    "loaded_templates (fst (run_loop cfg_two True reg0 ticks3 worker2)) =
     [(tmpl ''a.png'')\<lparr>last_click_ts := 258 / 25\<rparr>, (tmpl ''b.png'')\<lparr>last_click_ts := 253 / 25\<rparr>]"
    by (simp_all add: example_defs loop_defs upt_conv_Cons)
  from library_frame[OF r] e show ?thesis by simp
qed

section \<open>Cooling down\<close>

lemma set_py_slice: "set (py_slice xs a b) \<subseteq> set xs"
  unfolding py_slice_def Let_def by (meson set_take_subset set_drop_subset subset_trans)

lemma set_select_subset: "set (select_subset c T xs) \<subseteq> set xs"
  using set_py_slice[of xs] by (auto simp: select_subset_def Let_def)

lemma scan_fire_times:
  "scan cfg W reg tk sub lib = (lib', ev, cr) \<Longrightarrow>
     fire_times i ev = [] \<or>
     (fire_times i ev = [t_fire tk] \<and> \<not> cooling cfg tk lib i \<and> i \<in> set sub)"
proof (induction sub arbitrary: lib' ev cr)
  case Nil
  then show ?case by simp
next
  case (Cons j rest)
  then show ?case
    by (auto simp: cooling_def dispatch_fire_times
        split: if_splits option.splits list.splits prod.splits)
qed

lemma scan_cooling_skipped:
  "cooling cfg tk lib i \<Longrightarrow> scan cfg W reg tk sub lib = (lib', ev, cr) \<Longrightarrow>
     i \<notin> set (evaluated ev)"
proof (induction sub arbitrary: lib' ev cr)
  case Nil
  then show ?case by simp
next
  case (Cons j rest)
  then show ?case
    by (auto simp: cooling_def dispatch_evaluated
        split: if_splits option.splits list.splits prod.splits)
qed

lemma cycle_fire_times:
  assumes "cycle cfg W reg tk w = (w', ev, cr)"
  shows "fire_times i ev = [] \<or>
     (fire_times i ev = [t_fire tk] \<and> \<not> cooling cfg tk (loaded_templates w) i \<and>
      i < length (loaded_templates w))"
proof (cases "raises tk \<or> loaded_templates w = []")
  case True
  with assms show ?thesis by (auto simp: cycle_def Let_def split: if_splits)
next
  case False
  obtain lib' sev scr where sc: "scan cfg W reg tk (select_subset (idx w) (TEMPLATES_PER_TICK cfg) [0..<length (loaded_templates w)])
           (loaded_templates w) = (lib', sev, scr)" by (metis prod_cases3)
  from cycle_scan[OF _ _ sc assms] False have "fire_times i ev = fire_times i sev" by simp
  with scan_fire_times[OF sc, of i]
    set_select_subset[of "idx w" "TEMPLATES_PER_TICK cfg" "[0..<length (loaded_templates w)]"]
  show ?thesis by auto
qed

lemma cycle_cooling_skipped:
  assumes "cooling cfg tk (loaded_templates w) i" "cycle cfg W reg tk w = (w', ev, cr)"
  shows "i \<notin> set (evaluated ev)"
proof (cases "raises tk \<or> loaded_templates w = []")
  case True
  with assms show ?thesis by (auto simp: cycle_def Let_def split: if_splits)
next
  case False
  obtain lib' sev scr where sc: "scan cfg W reg tk (select_subset (idx w) (TEMPLATES_PER_TICK cfg) [0..<length (loaded_templates w)])
           (loaded_templates w) = (lib', sev, scr)" by (metis prod_cases3)
  from cycle_scan[OF _ _ sc assms(2)] False scan_cooling_skipped[OF assms(1) sc]
  show ?thesis by simp
qed

lemma spaced_nth:
  "spaced cd l ts \<Longrightarrow> sorted ts \<Longrightarrow> a < b \<Longrightarrow> b < length ts \<Longrightarrow> ts ! a + cd \<le> ts ! b"
proof (induction ts arbitrary: l a b)
  case Nil
  then show ?case by simp
next
  case (Cons t ts)
  show ?case
  proof (cases a)
    case 0
    with Cons.prems obtain b' where b: "b = Suc b'" "b' < length ts" by (cases b) auto
    then obtain t' ts' where ts: "ts = t' # ts'" by (cases ts) auto
    with Cons.prems have "t + cd \<le> t'" by simp
    moreover have "t' \<le> ts ! b'" using Cons.prems(2) b ts by (cases b') auto
    ultimately show ?thesis using 0 b by simp
  next
    case (Suc a')
    with Cons.prems obtain b' where b: "b = Suc b'" "a' < b'" "b' < length ts" by (cases b) auto
    from Cons.prems have "spaced cd t ts" "sorted ts" by simp_all
    from Cons.IH[OF this b(2,3)] Suc b show ?thesis by simp
  qed
qed

lemma run_loop_spaced:
  "clock_ok t tks \<Longrightarrow> run_loop cfg W reg tks w = (w', ev) \<Longrightarrow> i < length (loaded_templates w) \<Longrightarrow>
     spaced (COOLDOWN_S cfg) (last_click_ts (loaded_templates w ! i)) (fire_times i ev) \<and>
     sorted (fire_times i ev) \<and> (\<forall>x \<in> set (fire_times i ev). t \<le> x)"
proof (induction tks arbitrary: t w w' ev)
  case Nil
  then show ?case by (cases "stop_evt w") auto
next
  case (Cons tk tks)
  from Cons.prems(1) have ck: "t \<le> t0 tk" "t0 tk \<le> now tk" "now tk \<le> t_fire tk"
    "t_fire tk \<le> t_end tk" "clock_ok (t_end tk) tks" by simp_all
  show ?case
  proof (cases "stop_evt w")
    case True
    with Cons.prems show ?thesis by auto
  next
    case False
    obtain w1 e1 c1 where c: "cycle cfg W reg tk w = (w1, e1, c1)" by (metis prod_cases3)
    have o1: "only_fired (loaded_templates w) e1 (loaded_templates w1)"
      using cycle_only_fired[OF c] .
    have f1: "fire_times i e1 = [] \<or>
      (fire_times i e1 = [t_fire tk] \<and> \<not> cooling cfg tk (loaded_templates w) i)"
      using cycle_fire_times[OF c, of i] by auto
    have one: "spaced (COOLDOWN_S cfg) (last_click_ts (loaded_templates w ! i)) (fire_times i e1)"
      using f1 ck by (auto simp: cooling_def)
    show ?thesis
    proof (cases c1)
      case True
      with False c Cons.prems have "fire_times i ev = fire_times i e1"
        by (auto simp: fire_times_append)
      with one f1 ck show ?thesis by auto
    next
      case nc: False
      obtain w2 e2 where r: "run_loop cfg W reg tks w1 = (w2, e2)"
        by (cases "run_loop cfg W reg tks w1")
      have len: "i < length (loaded_templates w1)"
        using o1 Cons.prems(3) by (simp add: only_fired_def)
      from Cons.IH[OF ck(5) r len]
      have ih: "spaced (COOLDOWN_S cfg) (last_click_ts (loaded_templates w1 ! i)) (fire_times i e2)"
        "sorted (fire_times i e2)" "\<forall>x \<in> set (fire_times i e2). t_end tk \<le> x" by simp_all
      have l1: "last_click_ts (loaded_templates w1 ! i) =
        (if fire_times i e1 = [] then last_click_ts (loaded_templates w ! i) else last (fire_times i e1))"
        using o1 Cons.prems(3) by (simp add: only_fired_def)
      have ev: "fire_times i ev = fire_times i e1 @ fire_times i e2"
        using False c nc r Cons.prems(2) by (auto simp: fire_times_append)
      from f1 show ?thesis
      proof
        assume e: "fire_times i e1 = []"
        with ih l1 ev ck show ?thesis by auto
      next
        assume e: "fire_times i e1 = [t_fire tk] \<and> \<not> cooling cfg tk (loaded_templates w) i"
        with ih l1 ev ck show ?thesis by (auto simp: cooling_def)
      qed
    qed
  qed
qed

text \<open>
  C8.  With a monotonic clock, any two firings of the same template in a run are at least
  \<open>COOLDOWN_S\<close> apart: the later time stamp is at least the earlier one plus the cool-down.
  And in a pass, an entry whose elapsed time since its time stamp is below the cool-down
  is not correlated.  Times are real numbers here; the floats of the source round.
\<close>

theorem cooldown_enforced:
  "(clock_ok t tks \<and> i < length (loaded_templates w) \<and> a < b \<and>
    b < length (fire_times i (snd (run_loop cfg W reg tks w))) \<longrightarrow>
      fire_times i (snd (run_loop cfg W reg tks w)) ! a + COOLDOWN_S cfg
        \<le> fire_times i (snd (run_loop cfg W reg tks w)) ! b) \<and>
   (cooling cfg tk (loaded_templates w) i \<longrightarrow>
      i \<notin> set (evaluated (fst (snd (cycle cfg W reg tk w)))))"
proof (intro conjI impI)
  assume a: "clock_ok t tks \<and> i < length (loaded_templates w) \<and> a < b \<and>
    b < length (fire_times i (snd (run_loop cfg W reg tks w)))"
  obtain w' ev where r: "run_loop cfg W reg tks w = (w', ev)" by (cases "run_loop cfg W reg tks w")
  from a r run_loop_spaced[OF _ r, of t i]
  have "spaced (COOLDOWN_S cfg) (last_click_ts (loaded_templates w ! i)) (fire_times i ev)"
    "sorted (fire_times i ev)" "a < b" "b < length (fire_times i ev)" by simp_all
  from spaced_nth[OF this] r
  show "fire_times i (snd (run_loop cfg W reg tks w)) ! a + COOLDOWN_S cfg
        \<le> fire_times i (snd (run_loop cfg W reg tks w)) ! b" by simp
next
  assume c: "cooling cfg tk (loaded_templates w) i"
  obtain w' ev cr where cy: "cycle cfg W reg tk w = (w', ev, cr)" by (metis prod_cases3)
  from cycle_cooling_skipped[OF c cy] cy
  show "i \<notin> set (evaluated (fst (snd (cycle cfg W reg tk w))))" by simp
qed

text \<open>
  The instance: the first template fires at 10.02 and, matched again at 10.11, is passed
  over without correlation; it fires next at 10.32.
\<close>

theorem cooldown_enforced_witness:
  "clock_ok 0 ticks3 \<and> 0 < length (loaded_templates worker2) \<and>
   fire_times 0 (snd (run_loop cfg_two True reg0 ticks3 worker2)) = [501 / 50, 258 / 25] \<and>
   fire_times 0 (snd (run_loop cfg_two True reg0 ticks3 worker2)) ! 0 + COOLDOWN_S cfg_two
     \<le> fire_times 0 (snd (run_loop cfg_two True reg0 ticks3 worker2)) ! 1 \<and>
   cooling cfg_two (tick_at (101 / 10)) (loaded_templates worker2_fired) 0 \<and>
   is_match cfg_two (tick_at (101 / 10)) (loaded_templates worker2_fired) 1 \<and>
   0 \<notin> set (evaluated (fst (snd (cycle cfg_two True reg0 (tick_at (101 / 10)) worker2_fired))))"
proof -
  have e: "fire_times 0 (snd (run_loop cfg_two True reg0 ticks3 worker2)) = [501 / 50, 258 / 25]"
    by (simp add: example_defs loop_defs upt_conv_Cons)
  have h: "clock_ok 0 ticks3" "0 < length (loaded_templates worker2)"
    "cooling cfg_two (tick_at (101 / 10)) (loaded_templates worker2_fired) 0"
    "is_match cfg_two (tick_at (101 / 10)) (loaded_templates worker2_fired) 1"
    by (simp_all add: example_defs cooling_def is_match_def)
  from cooldown_enforced[of 0 ticks3 0 worker2 0 1 cfg_two True reg0 "tick_at (101 / 10)"]
    cooldown_enforced[of 0 ticks3 0 worker2_fired 0 1 cfg_two True reg0 "tick_at (101 / 10)"]
    e h
  show ?thesis by simp
qed

section \<open>Where the stop flag is read\<close>

lemma follows_skip:
  "\<forall>e \<in> set xs. \<not> q e \<Longrightarrow>
     follows p q prev (xs @ ys) = follows p q (if xs = [] then prev else p (last xs)) ys"
  by (induction xs arbitrary: prev) auto

lemma dispatch_no_grab: "dispatch cfg W reg tk i e h = Some ev \<Longrightarrow> Grab \<notin> set ev"
  by (auto simp: dispatch_def split: option.splits if_splits dest: click_set)

lemma scan_no_grab: "scan cfg W reg tk sub lib = (lib', ev, cr) \<Longrightarrow> Grab \<notin> set ev"
proof (induction sub arbitrary: lib' ev cr)
  case Nil
  then show ?case by simp
next
  case (Cons i rest)
  then show ?case
    by (auto split: if_splits option.splits list.splits prod.splits dest: dispatch_no_grab)
qed

lemma cycle_grab_first:
  assumes "cycle cfg W reg tk w = (w', ev, cr)"
  shows "\<exists>r. ev = Grab # r \<and> Grab \<notin> set r"
  using assms
  by (auto simp: cycle_def Let_def split: if_splits prod.splits dest: scan_no_grab)

lemma cycle_stop_called:
  "stop_called tk \<Longrightarrow> cycle cfg W reg tk w = (w', ev, cr) \<Longrightarrow> stop_evt w'"
  by (auto simp: cycle_def Let_def split: if_splits prod.splits)

lemma run_loop_stopped:
  "stop_evt w \<Longrightarrow> run_loop cfg W reg tks w = (w, [CheckStop True, SetStatusStopped])"
  by (cases tks) simp_all

lemma run_loop_heads:
  "follows (\<lambda>e. e = CheckStop False) (\<lambda>e. e = Grab) prev (snd (run_loop cfg W reg tks w))"
proof (induction tks arbitrary: w prev)
  case Nil
  then show ?case by simp
next
  case (Cons tk tks)
  show ?case
  proof (cases "stop_evt w")
    case True
    then show ?thesis by simp
  next
    case False
    obtain w1 e1 c1 where c: "cycle cfg W reg tk w = (w1, e1, c1)" by (metis prod_cases3)
    from cycle_grab_first[OF c] obtain r where r: "e1 = Grab # r" "Grab \<notin> set r" by blast
    then have nr: "\<forall>e \<in> set r. \<not> e = Grab" by auto
    show ?thesis
    proof (cases c1)
      case True
      have "follows (\<lambda>e. e = CheckStop False) (\<lambda>e. e = Grab) False (r @ [LogCrashed, SetStatusStopped])"
        by (subst follows_skip[OF nr]) simp
      with False c True r show ?thesis by simp
    next
      case nc: False
      obtain w2 e2 where rl: "run_loop cfg W reg tks w1 = (w2, e2)"
        by (cases "run_loop cfg W reg tks w1")
      have "follows (\<lambda>e. e = CheckStop False) (\<lambda>e. e = Grab) False (r @ e2)"
        using Cons.IH[of _ w1] rl by (subst follows_skip[OF nr]) simp
      with False c nc r rl show ?thesis by simp
    qed
  qed
qed

lemma run_loop_after_stop:
  "stop_called tk \<Longrightarrow>
     run_loop cfg W reg (pre @ tk # post) w = run_loop cfg W reg (pre @ [tk]) w"
proof (induction pre arbitrary: w)
  case Nil
  show ?case
  proof (cases "stop_evt w")
    case True
    then show ?thesis by simp
  next
    case False
    obtain w1 e1 c1 where c: "cycle cfg W reg tk w = (w1, e1, c1)" by (metis prod_cases3)
    from cycle_stop_called[OF Nil c] have s: "stop_evt w1" .
    from False c s run_loop_stopped[OF s, of cfg W reg post] show ?thesis by simp
  qed
next
  case (Cons a pre)
  then show ?case by (simp split: prod.splits)
qed

lemma click_no_check: "e \<in> set (click cfg tk cx cy) \<Longrightarrow> \<not> is_check e"
  by (auto dest: click_set)

lemma dispatch_no_check:
  "dispatch cfg W reg tk i en h = Some ev \<Longrightarrow> e \<in> set ev \<Longrightarrow> \<not> is_check e"
  by (auto simp: dispatch_def split: option.splits if_splits dest: click_no_check)

lemma scan_no_check:
  "scan cfg W reg tk sub lib = (lib', ev, cr) \<Longrightarrow> e \<in> set ev \<Longrightarrow> \<not> is_check e"
proof (induction sub arbitrary: lib' ev cr)
  case Nil
  then show ?case by simp
next
  case (Cons i rest)
  then show ?case
    by (auto split: if_splits option.splits list.splits prod.splits dest: dispatch_no_check)
qed

lemma cycle_no_check:
  "cycle cfg W reg tk w = (w', ev, cr) \<Longrightarrow> e \<in> set ev \<Longrightarrow> \<not> is_check e"
  by (auto simp: cycle_def Let_def split: if_splits prod.splits dest: scan_no_check)

lemma follows_all:
  "\<forall>e \<in> set xs. p e \<Longrightarrow> follows p q True ys \<Longrightarrow> follows p q True (xs @ ys)"
  by (induction xs) auto

lemma run_loop_sleeps:
  "follows (\<lambda>e. \<not> is_check e) is_sleep prev (snd (run_loop cfg W reg tks w))"
proof (induction tks arbitrary: w prev)
  case Nil
  then show ?case by simp
next
  case (Cons tk tks)
  show ?case
  proof (cases "stop_evt w")
    case True
    then show ?thesis by simp
  next
    case False
    obtain w1 e1 c1 where c: "cycle cfg W reg tk w = (w1, e1, c1)" by (metis prod_cases3)
    from cycle_grab_first[OF c] obtain r where r: "e1 = Grab # r" by blast
    have nr: "\<forall>e \<in> set r. \<not> is_check e" using cycle_no_check[OF c] r by auto
    show ?thesis
    proof (cases c1)
      case True
      have "follows (\<lambda>e. \<not> is_check e) is_sleep True (r @ [LogCrashed, SetStatusStopped])"
        using nr by (intro follows_all) simp_all
      with False c True r show ?thesis by simp
    next
      case nc: False
      obtain w2 e2 where rl: "run_loop cfg W reg tks w1 = (w2, e2)"
        by (cases "run_loop cfg W reg tks w1")
      have "follows (\<lambda>e. \<not> is_check e) is_sleep True e2"
        using Cons.IH[of True w1] rl by simp
      then have "follows (\<lambda>e. \<not> is_check e) is_sleep True (r @ e2)"
        using nr by (intro follows_all) simp_all
      with False c nc r rl show ?thesis by simp
    qed
  qed
qed

lemma click_stop_irrelevant: "click cfg (tk\<lparr>stop_called := b\<rparr>) cx cy = click cfg tk cx cy"
  by (simp add: click_def)

lemma dispatch_stop_irrelevant:
  "dispatch cfg W reg (tk\<lparr>stop_called := b\<rparr>) i en h = dispatch cfg W reg tk i en h"
  by (simp add: dispatch_def click_stop_irrelevant split: option.splits)

lemma scan_stop_irrelevant:
  "scan cfg W reg (tk\<lparr>stop_called := b\<rparr>) sub lib = scan cfg W reg tk sub lib"
  by (induction sub)
    (simp_all add: dispatch_stop_irrelevant split: option.splits list.splits prod.splits)

lemma cycle_stop_irrelevant:
  assumes "cycle cfg W reg (tk\<lparr>stop_called := False\<rparr>) w = (w', ev, cr)"
  shows "cycle cfg W reg (tk\<lparr>stop_called := True\<rparr>) w =
           (w'\<lparr>stop_evt := True\<rparr>, Grab # StopCalled # tl ev, cr)"
  using assms
  by (auto simp: cycle_def Let_def scan_stop_irrelevant split: if_splits prod.splits)

lemma cycle_empty_sleep:
  "\<not> raises tk \<Longrightarrow> loaded_templates w = [] \<Longrightarrow>
     fst (snd (cycle cfg W reg tk w)) =
       Grab # (if stop_called tk then [StopCalled] else []) @ [Sleep (3 / 10)]"
  by (simp add: cycle_def Let_def)

lemma cycle_pacing_sleep:
  assumes "loaded_templates w \<noteq> []" "\<not> snd (snd (cycle cfg W reg tk w))"
    "0 < frame_interval cfg - (t_end tk - t0 tk)"
  shows "last (fst (snd (cycle cfg W reg tk w))) = Sleep (frame_interval cfg - (t_end tk - t0 tk))"
  using assms
  by (auto simp: cycle_def Let_def split: if_splits prod.splits)

text \<open>
  C4, as the code has it.  The stop flag is read at the head of every pass and nowhere
  else.  Every capture of a run comes right after a test that found the flag clear.  No
  sleep of a run comes right after a test of the flag, and the body of a pass contains no
  test at all.  A call of \<^verbatim>\<open>stop()\<close> during a pass changes nothing of what that pass
  does: it leaves the same worker but for the flag, makes the same calls and ends the
  same way as without the call; in particular, with an empty library the pass sleeps its
  0.3 s, and with templates a pass that did not crash and has time left ends with its
  pacing sleep, stop or no stop.  A run entered with the flag set does nothing but leave;
  and after a pass during which \<^verbatim>\<open>stop()\<close> was called no later pass is begun.
\<close>

theorem stop_flag_read_at_head_only:
  "heads_checked (snd (run_loop cfg W reg tks w)) \<and>
   follows (\<lambda>e. \<not> is_check e) is_sleep True (snd (run_loop cfg W reg tks w)) \<and>
   filter is_check (fst (snd (cycle cfg W reg tk w))) = [] \<and>
   cycle cfg W reg (tk\<lparr>stop_called := True\<rparr>) w =
     ((fst (cycle cfg W reg (tk\<lparr>stop_called := False\<rparr>) w))\<lparr>stop_evt := True\<rparr>,
      Grab # StopCalled # tl (fst (snd (cycle cfg W reg (tk\<lparr>stop_called := False\<rparr>) w))),
      snd (snd (cycle cfg W reg (tk\<lparr>stop_called := False\<rparr>) w))) \<and>
   (\<not> raises tk \<and> loaded_templates w = [] \<longrightarrow>
      fst (snd (cycle cfg W reg tk w)) =
        Grab # (if stop_called tk then [StopCalled] else []) @ [Sleep (3 / 10)]) \<and>
   (loaded_templates w \<noteq> [] \<and> \<not> snd (snd (cycle cfg W reg tk w)) \<and>
    0 < frame_interval cfg - (t_end tk - t0 tk) \<longrightarrow>
      last (fst (snd (cycle cfg W reg tk w))) =
        Sleep (frame_interval cfg - (t_end tk - t0 tk))) \<and>
   (stop_evt w \<longrightarrow> run_loop cfg W reg tks w = (w, [CheckStop True, SetStatusStopped])) \<and>
   (stop_called tk \<longrightarrow>
      run_loop cfg W reg (pre @ tk # post) w = run_loop cfg W reg (pre @ [tk]) w)"
proof -
  have 1: "heads_checked (snd (run_loop cfg W reg tks w))"
    using run_loop_heads[of False cfg W reg tks w] by (simp add: heads_checked_def)
  have 2: "follows (\<lambda>e. \<not> is_check e) is_sleep True (snd (run_loop cfg W reg tks w))"
    by (rule run_loop_sleeps)
  have 3: "filter is_check (fst (snd (cycle cfg W reg tk w))) = []"
    using cycle_no_check[of cfg W reg tk w]
    by (cases "cycle cfg W reg tk w") (auto simp: filter_empty_conv)
  have 4: "cycle cfg W reg (tk\<lparr>stop_called := True\<rparr>) w =
     ((fst (cycle cfg W reg (tk\<lparr>stop_called := False\<rparr>) w))\<lparr>stop_evt := True\<rparr>,
      Grab # StopCalled # tl (fst (snd (cycle cfg W reg (tk\<lparr>stop_called := False\<rparr>) w))),
      snd (snd (cycle cfg W reg (tk\<lparr>stop_called := False\<rparr>) w)))"
    by (rule cycle_stop_irrelevant) simp
  note 5 = cycle_empty_sleep[of tk w cfg W reg]
  note 6 = cycle_pacing_sleep[of w cfg W reg tk]
  note 7 = run_loop_stopped[of w cfg W reg tks]
  note 8 = run_loop_after_stop[of tk cfg W reg pre post w]
  from 1 2 3 4 5 6 7 8 show ?thesis by blast
qed

text \<open>
  C4 as stated fails: no sleep of the loop is preceded by a test of the flag.  With
  \<^verbatim>\<open>stop()\<close> called while the frame is captured, the pacing sleep of that pass still
  begins, and with an empty library so does the sleep of 0.3 s.
\<close>

theorem sleep_after_stop_counterexample:
  "snd (run_loop cfg_two True reg0 [tick_stop] worker2) =
     [CheckStop False, Grab, StopCalled, MatchTemplate 0, LogMatch 0 512 486,
      SetLastClick 0 (501 / 50), Sleep (1 / 50), CheckStop True, SetStatusStopped] \<and>
   \<not> sleeps_checked (snd (run_loop cfg_two True reg0 [tick_stop] worker2)) \<and>
   \<not> no_sleep_after_stop (snd (run_loop cfg_two True reg0 [tick_stop] worker2)) \<and>
   snd (run_loop cfg_two True reg0 [tick_stop] (worker2\<lparr>loaded_templates := []\<rparr>)) =
     [CheckStop False, Grab, StopCalled, Sleep (3 / 10), CheckStop True, SetStatusStopped]"
  by (simp add: cfg_click_def cfg_sim_def cfg_two_def reg0_def tmpl_def lib2_def tick_at_def
      worker2_def tick_stop_def DetectorWorker_init_def cycle_def select_subset_def py_slice_def
      py_norm_def advance_def Let_def dispatch_def map_coord_def py_int_def double_round_numeral frame_interval_def
      sleeps_checked_def upt_conv_Cons)

text \<open>
  The instance: \<^verbatim>\<open>stop()\<close> during the first of two passes, with two templates and with
  none, and a run entered after \<^verbatim>\<open>stop()\<close>.
\<close>

theorem stop_flag_read_at_head_only_witness:
  "stop_called tick_stop \<and> \<not> stop_evt worker2 \<and>
   \<not> raises tick_stop \<and> loaded_templates (DetectorWorker_init cfg_two) = [] \<and>
   loaded_templates worker2 \<noteq> [] \<and> \<not> snd (snd (cycle cfg_two True reg0 tick_stop worker2)) \<and>
   0 < frame_interval cfg_two - (t_end tick_stop - t0 tick_stop) \<and>
   heads_checked (snd (run_loop cfg_two True reg0 [tick_stop, tick_at 11] worker2)) \<and>
   fst (snd (cycle cfg_two True reg0 tick_stop (DetectorWorker_init cfg_two))) =
     [Grab, StopCalled, Sleep (3 / 10)] \<and>
   last (fst (snd (cycle cfg_two True reg0 tick_stop worker2))) = Sleep (1 / 50) \<and>
   run_loop cfg_two True reg0 ([] @ tick_stop # [tick_at 11]) worker2 =
     run_loop cfg_two True reg0 ([] @ [tick_stop]) worker2 \<and>
   stop_evt (snd (stop ([], worker2))) \<and>
   run_loop cfg_two True reg0 [tick_at 11] (snd (stop ([], worker2))) =
     (snd (stop ([], worker2)), [CheckStop True, SetStatusStopped])"
proof -
  have h: "stop_called tick_stop" "\<not> stop_evt worker2" "stop_evt (snd (stop ([], worker2)))"
    "\<not> raises tick_stop" "loaded_templates (DetectorWorker_init cfg_two) = []"
    "loaded_templates worker2 \<noteq> []"
    by (simp_all add: tick_stop_def tick_at_def worker2_def DetectorWorker_init_def stop_def
        lib2_def)
  have nc: "\<not> snd (snd (cycle cfg_two True reg0 tick_stop worker2))"
    by (simp add: example_defs loop_defs upt_conv_Cons)
  have sl: "frame_interval cfg_two - (t_end tick_stop - t0 tick_stop) = 1 / 50"
    by (simp add: example_defs frame_interval_def)
  then have pos: "0 < frame_interval cfg_two - (t_end tick_stop - t0 tick_stop)" by simp
  note a = stop_flag_read_at_head_only[of cfg_two True reg0 "[tick_stop, tick_at 11]" worker2
      tick_stop "[]" "[tick_at 11]"]
  note b = stop_flag_read_at_head_only[of cfg_two True reg0 "[tick_at 11]"
      "snd (stop ([], worker2))" tick_stop "[]" "[tick_at 11]"]
  note c = stop_flag_read_at_head_only[of cfg_two True reg0 "[]" "DetectorWorker_init cfg_two"
      tick_stop "[]" "[]"]
  from a have 1: "heads_checked (snd (run_loop cfg_two True reg0 [tick_stop, tick_at 11] worker2))"
    by (rule conjunct1)
  from a h(1) have 2: "run_loop cfg_two True reg0 ([] @ tick_stop # [tick_at 11]) worker2 =
     run_loop cfg_two True reg0 ([] @ [tick_stop]) worker2" by blast
  from b h(3) have 3: "run_loop cfg_two True reg0 [tick_at 11] (snd (stop ([], worker2))) =
     (snd (stop ([], worker2)), [CheckStop True, SetStatusStopped])" by blast
  from c h(4,5) have "fst (snd (cycle cfg_two True reg0 tick_stop (DetectorWorker_init cfg_two))) =
     Grab # (if stop_called tick_stop then [StopCalled] else []) @ [Sleep (3 / 10)]" by blast
  with h(1) have 4: "fst (snd (cycle cfg_two True reg0 tick_stop (DetectorWorker_init cfg_two))) =
     [Grab, StopCalled, Sleep (3 / 10)]" by simp
  from a h(6) nc pos have "last (fst (snd (cycle cfg_two True reg0 tick_stop worker2))) =
     Sleep (frame_interval cfg_two - (t_end tick_stop - t0 tick_stop))" by blast
  with sl have 5: "last (fst (snd (cycle cfg_two True reg0 tick_stop worker2))) = Sleep (1 / 50)"
    by simp
  from h nc pos 1 2 3 4 5 show ?thesis by blast
qed

section \<open>Starting a worker\<close>

lemma alive_count_le1:
  "(\<And>i j. i < length xs \<Longrightarrow> j < length xs \<Longrightarrow> xs ! i \<Longrightarrow> xs ! j \<Longrightarrow> i = j) \<Longrightarrow>
     alive_count xs \<le> 1"
proof (induction xs)
  case Nil
  then show ?case by (simp add: alive_count_def)
next
  case (Cons x xs)
  show ?case
  proof (cases x)
    case True
    have "\<not> b" if "b \<in> set xs" for b
    proof
      assume b
      with that obtain j where j: "j < length xs" "xs ! j" by (auto simp: in_set_conv_nth)
      from Cons.prems[of 0 "Suc j"] True j show False by simp
    qed
    then have "filter (\<lambda>b. b) xs = []" by (auto simp: filter_empty_conv)
    with True show ?thesis by (simp add: alive_count_def)
  next
    case False
    have "alive_count xs \<le> 1"
    proof (rule Cons.IH)
      fix i j assume "i < length xs" "j < length xs" "xs ! i" "xs ! j"
      with Cons.prems[of "Suc i" "Suc j"] show "i = j" by simp
    qed
    with False show ?thesis by (simp add: alive_count_def)
  qed
qed

lemma owns_alive_start: "owns_alive tw \<Longrightarrow> owns_alive (start tw)"
  by (cases tw)
    (auto simp: owns_alive_def start_def is_alive_def nth_append split: option.splits if_splits)

lemma owns_alive_act: "owns_alive tw \<Longrightarrow> owns_alive (act a tw)"
proof (cases a)
  case Start
  assume "owns_alive tw"
  with Start show ?thesis by (simp add: owns_alive_start)
next
  case Stop
  assume "owns_alive tw"
  with Stop show ?thesis by (cases tw) (simp add: owns_alive_def stop_def)
next
  case (Exit t)
  assume "owns_alive tw"
  with Exit show ?thesis by (cases tw) (auto simp: owns_alive_def nth_list_update)
qed

lemma owns_alive_acts: "owns_alive tw \<Longrightarrow> owns_alive (acts as tw)"
  by (induction as arbitrary: tw) (simp_all add: owns_alive_act)

lemma owns_alive_count: "owns_alive tw \<Longrightarrow> alive_count (fst tw) \<le> 1"
  by (rule alive_count_le1) (metis owns_alive_def option.inject)

text \<open>
  C10.  \<^verbatim>\<open>start()\<close> on a worker whose thread is alive changes nothing: not the stop
  flag, the index, the templates or the thread, and no thread is created.  Whatever the
  owner calls and whenever threads end, at most one thread of a worker is alive.
\<close>

theorem start_while_alive_is_noop:
  "(is_alive threads w \<longrightarrow> start (threads, w) = (threads, w)) \<and>
   alive_count (fst (acts as ([], DetectorWorker_init s))) \<le> 1"
proof
  show "is_alive threads w \<longrightarrow> start (threads, w) = (threads, w)"
    by (simp add: start_def)
  have "owns_alive ([], DetectorWorker_init s)" by (simp add: owns_alive_def)
  from owns_alive_count[OF owns_alive_acts[OF this]]
  show "alive_count (fst (acts as ([], DetectorWorker_init s))) \<le> 1" .
qed

text \<open>
  The instance: a second \<^verbatim>\<open>start()\<close> after \<^verbatim>\<open>stop()\<close> while the thread still lives
  leaves the flag set and creates nothing; after the thread has ended it creates the
  second thread.
\<close>

theorem start_while_alive_is_noop_witness:
  "is_alive [True] worker_bad \<and> start ([True], worker_bad) = ([True], worker_bad) \<and>
   acts [Start, Stop, Start] ([], DetectorWorker_init cfg_sim) =
     ([True], (DetectorWorker_init cfg_sim)\<lparr>stop_evt := True, thread := Some 0\<rparr>) \<and>
   acts [Start, Stop, Exit 0, Start] ([], DetectorWorker_init cfg_sim) =
     ([False, True], (DetectorWorker_init cfg_sim)\<lparr>stop_evt := False, thread := Some 1\<rparr>) \<and>
   alive_count (fst (acts [Start, Stop, Exit 0, Start] ([], DetectorWorker_init cfg_sim))) \<le> 1"
proof -
  have h: "is_alive [True] worker_bad"
    by (simp add: is_alive_def worker_bad_def DetectorWorker_init_def)
  have e: "acts [Start, Stop, Start] ([], DetectorWorker_init cfg_sim) =
     ([True], (DetectorWorker_init cfg_sim)\<lparr>stop_evt := True, thread := Some 0\<rparr>)"
    "acts [Start, Stop, Exit 0, Start] ([], DetectorWorker_init cfg_sim) =
     ([False, True], (DetectorWorker_init cfg_sim)\<lparr>stop_evt := False, thread := Some 1\<rparr>)"
    by (simp_all add: start_def stop_def is_alive_def DetectorWorker_init_def)
  note a = start_while_alive_is_noop[of "[True]" worker_bad "[Start, Stop, Exit 0, Start]" cfg_sim]
  from a h have 1: "start ([True], worker_bad) = ([True], worker_bad)" by blast
  from a have 2: "alive_count (fst (acts [Start, Stop, Exit 0, Start] ([], DetectorWorker_init cfg_sim))) \<le> 1"
    by (rule conjunct2)
  from h e 1 2 show ?thesis by blast
qed

section \<open>Starting with any settings\<close>






section \<open>The mapped point\<close>

lemma half_gap:
  "0 \<le> (of_int z :: real) / 2 - of_int (z div 2) \<and>
   (of_int z :: real) / 2 - of_int (z div 2) \<le> 1 / 2"
proof -
  define a where "a = (of_int (z div 2) :: real)"
  define m where "m = (of_int (z mod 2) :: real)"
  have "(of_int z :: real) = of_int (z div 2 * 2 + z mod 2)"
    by (simp only: div_mult_mod_eq)
  also have "\<dots> = of_int (z div 2) * 2 + of_int (z mod 2)"
    by (simp only: of_int_add of_int_mult of_int_numeral)
  finally have r: "(of_int z :: real) = 2 * a + m" by (simp add: a_def m_def)
  have "0 \<le> z mod 2" "z mod 2 \<le> 1" by simp_all
  then have m: "0 \<le> m" "m \<le> 1" unfolding m_def by linarith+
  from r m show ?thesis unfolding a_def[symmetric] by linarith
qed

lemma lowlevel_hover_click_target:
  "hd (lowlevel_hover_click x y (dx, dy) jiggle hover_delay) = SetCursorPos (x + dx) (y + dy)"
  by (simp add: lowlevel_hover_click_def)

text \<open>
  Two divisions that are not exact.  With the scale \<^verbatim>\<open>0.4\<close> and a scaled centre at 2 the
  quotient rounds up to 5.0, beyond the exact centre; with the scale \<^verbatim>\<open>0.55\<close> and a
  scaled centre at 33 it stays below 60.
\<close>

lemma double_round_at_0_4: "double_round (2 / double_0_4) = 5"
  by (subst double_round_binade[of 2]) (simp_all add: double_0_4_def round_half_even_def Let_def)

lemma double_round_at_0_55: "double_round (33 / double_0_55) = 8444249301319679 / 2 ^ 47"
  by (subst double_round_binade[of 5]) (simp_all add: double_0_55_def round_half_even_def Let_def)

lemma map_coord_at_0_55: "map_coord double_0_55 0 21 25 = Some 59"
proof -
  have f: "\<lfloor>double_round (33 / double_0_55)\<rfloor> = 59" by (subst double_round_at_0_55) simp
  have p: "0 \<le> double_round (33 / double_0_55)" by (subst double_round_at_0_55) simp
  have nz: "double_0_55 \<noteq> 0" by (simp add: double_0_55_def)
  show ?thesis using f p nz by (simp add: map_coord_def py_int_def double_round_numeral)
qed

text \<open>
  C6, as the code has it.  For a scale in \<open>[2\<^sup>-\<^sup>9\<^sup>6\<^sup>0, 1]\<close>, a hit and a template size that
  are not negative and a sum below \<open>2\<^sup>5\<^sup>3\<close>, the point is the origin plus the floor of the
  double quotient (hit + size div 2) / scale, plus the offset that Cheat.py adds when it
  clicks: the half size is an integer division, the division is rounded to a double, and
  the quotient is truncated before origin and offset, both integers, are added.  With
  \<open>\<rho>\<close> the rounding error of the division, at most \<open>2\<^sup>-\<^sup>5\<^sup>3\<close> of the exact quotient, the
  point is at most \<open>\<rho>\<close> beyond the exactly computed centre of the specification and less
  than \<open>1 + 1 / (2 scale) + \<rho>\<close> before it.
\<close>

theorem mapped_point_near_centre:
  assumes S: "1 / 2 ^ 960 \<le> S" "S \<le> 1" and p: "0 \<le> p_s" and z: "0 \<le> size_s"
    and a: "p_s + size_s div 2 < 2 ^ 53"
  shows "cheat_target S origin p_s size_s d =
           Some (origin + \<lfloor>double_round (of_int (p_s + size_s div 2) / S)\<rfloor> + d) \<and>
         of_int (origin + \<lfloor>double_round (of_int (p_s + size_s div 2) / S)\<rfloor> + d)
           \<le> spec_map S origin p_s size_s d + of_int (p_s + size_s div 2) / S / 2 ^ 53 \<and>
         spec_map S origin p_s size_s d
           < of_int (origin + \<lfloor>double_round (of_int (p_s + size_s div 2) / S)\<rfloor> + d)
             + 1 + 1 / (2 * S) + of_int (p_s + size_s div 2) / S / 2 ^ 53"
proof -
  have S0: "0 < S"
  proof -
    have "(0::real) < 1 / 2 ^ 960" by (simp only: zero_less_divide_1_iff zero_less_power zero_less_numeral)
    with S(1) show ?thesis by linarith
  qed
  define A where "A = p_s + size_s div 2"
  have A0: "0 \<le> A" using p z by (simp add: A_def pos_imp_zdiv_nonneg_iff)
  have cv: "double_round (of_int A) = of_int A"
    using double_round_of_int[OF A0] a by (simp add: A_def)
  define q where "q = (of_int A :: real) / S"
  define v where "v = double_round q"
  define n where "n = \<lfloor>v\<rfloor>"
  define r where "r = q / 2 ^ 53"
  have q0: "0 \<le> q" using S0 A0 by (simp add: q_def)
  have v0: "0 \<le> v" unfolding v_def using q0 by (rule double_round_nonneg)
  have err: "\<bar>v - q\<bar> \<le> r"
  proof (cases "A = 0")
    case True
    then show ?thesis by (simp add: v_def q_def r_def double_round_def)
  next
    case False
    with A0 have "1 \<le> A" by simp
    then have "(1::real) \<le> of_int A" by simp
    also have "(of_int A :: real) \<le> of_int A / S"
    proof -
      have "(of_int A :: real) * S \<le> of_int A * 1"
        using S(2) A0 by (intro mult_left_mono) simp_all
      then show ?thesis using S0 by (simp add: le_divide_eq)
    qed
    finally have "1 \<le> q" by (simp add: q_def)
    from double_round_error[OF this] show ?thesis by (simp add: v_def r_def)
  qed
  have t: "cheat_target S origin p_s size_s d = Some (origin + n + d)"
    using S0 v0 cv
    by (simp add: cheat_target_def map_coord_def py_int_def A_def[symmetric] q_def[symmetric]
        v_def[symmetric] n_def)
  define g where "g = (of_int size_s :: real) / 2 - of_int (size_s div 2)"
  have g: "0 \<le> g" "g \<le> 1 / 2" using half_gap[of size_s] by (simp_all add: g_def)
  have e: "spec_map S origin p_s size_s d = q + g / S + of_int origin + of_int d"
    using S0 by (simp add: spec_map_def g_def q_def A_def add_divide_distrib diff_divide_distrib)
  have gs: "0 \<le> g / S" "g / S \<le> 1 / (2 * S)"
    using g S0 by (simp_all add: field_simps)
  have fl: "of_int n \<le> v" "v < of_int n + 1" unfolding n_def by linarith+
  have vq: "v \<le> q + r" "q - r \<le> v" using err by linarith+
  have lo: "of_int (origin + n + d) \<le> spec_map S origin p_s size_s d + r"
    using e gs fl vq by simp
  have hi: "spec_map S origin p_s size_s d < of_int (origin + n + d) + 1 + 1 / (2 * S) + r"
    using e gs fl vq by simp
  from t lo hi show ?thesis unfolding n_def v_def r_def q_def A_def by blast
qed

text \<open>
  C6 as stated fails on its own example: scaled size 25 x 25 at scaled (100, 150) with
  scale 1/2.  The exact centre is origin + (225, 325), an integer point that no final
  rounding changes; the code gives origin + (224, 324).
\<close>

theorem centre_rounding_counterexample:
  "spec_map (1 / 2) 0 100 25 0 = 225 \<and> cheat_target (1 / 2) 0 100 25 0 = Some 224 \<and>
   spec_map (1 / 2) 0 150 25 0 = 325 \<and> cheat_target (1 / 2) 0 150 25 0 = Some 324 \<and>
   dispatch cfg_two True reg0 (tick_at 10) 0 (tmpl ''a.png'') (100, 150) =
     Some [LogMatch 0 (reg_left reg0 + 224) (reg_top reg0 + 324), SetLastClick 0 (501 / 50)]"
  by (simp add: spec_map_def cheat_target_def map_coord_def py_int_def double_round_numeral dispatch_def cfg_two_def
      cfg_sim_def cfg_click_def reg0_def tick_at_def tmpl_def)

text \<open>
  The instances: the example's x coordinate with the region's left edge at 288, where the
  division is exact; and the scale \<^verbatim>\<open>0.4\<close> with a scaled centre at 2, where the point is
  5, beyond the exact centre by less than the rounding error.
\<close>

theorem mapped_point_near_centre_witness:
  "(1::real) / 2 ^ 960 \<le> 1 / 2 \<and> (1::real) / 2 \<le> 1 \<and> (0::int) \<le> 100 \<and> (0::int) \<le> 25 \<and>
   (100::int) + 25 div 2 < 2 ^ 53 \<and>
   cheat_target (1 / 2) 288 100 25 0 = Some 512 \<and>
   (512::real) \<le> spec_map (1 / 2) 288 100 25 0 + 224 / 2 ^ 53 \<and>
   spec_map (1 / 2) 288 100 25 0 < 512 + 1 + 1 + 224 / 2 ^ 53 \<and>
   1 / 2 ^ 960 \<le> double_0_4 \<and> double_0_4 \<le> 1 \<and>
   cheat_target double_0_4 0 2 0 0 = Some 5 \<and>
   spec_map double_0_4 0 2 0 0 < 5 \<and>
   (5::real) \<le> spec_map double_0_4 0 2 0 0 + 2 / double_0_4 / 2 ^ 53"
proof -
  have h: "(1::real) / 2 ^ 960 \<le> 1 / 2" "(1::real) / 2 \<le> 1" "(0::int) \<le> 100" "(0::int) \<le> 25"
    "(100::int) + 25 div 2 < 2 ^ 53"
    by simp_all
  have g: "1 / 2 ^ 960 \<le> double_0_4" "double_0_4 \<le> 1" "(0::int) \<le> 2" "(0::int) \<le> 0"
    "(2::int) + 0 div 2 < 2 ^ 53"
    by (simp_all add: double_0_4_def)
  have f: "\<lfloor>double_round ((of_int (100 + 25 div 2) :: real) / (1 / 2))\<rfloor> = 224"
    by (simp add: double_round_numeral)
  have f4: "\<lfloor>double_round ((of_int (2 + 0 div 2) :: real) / double_0_4)\<rfloor> = 5"
    by (simp add: double_round_at_0_4)
  have c4: "spec_map double_0_4 0 2 0 0 < 5" by (simp add: spec_map_def double_0_4_def)
  note t = mapped_point_near_centre[OF h, of 288 0]
  note u = mapped_point_near_centre[OF g, of 0 0]
  from t f have 1: "cheat_target (1 / 2) 288 100 25 0 = Some 512" by simp
  from t f have 2: "(512::real) \<le> spec_map (1 / 2) 288 100 25 0 + 224 / 2 ^ 53"
    by (simp del: power_numeral)
  from t f have 3: "spec_map (1 / 2) 288 100 25 0 < 512 + 1 + 1 + 224 / 2 ^ 53"
    by (simp del: power_numeral)
  from u f4 have 4: "cheat_target double_0_4 0 2 0 0 = Some 5" by simp
  from u f4 have 5: "(5::real) \<le> spec_map double_0_4 0 2 0 0 + 2 / double_0_4 / 2 ^ 53"
    by (simp del: power_numeral)
  from h g(1,2) 1 2 3 4 5 c4 show ?thesis by blast
qed

section \<open>The slice and the cursor\<close>

text \<open>
  With a batch that is not larger than the library the slice has exactly as many
  elements as the batch.
\<close>

lemma length_py_slice:
  "0 \<le> a \<Longrightarrow> a \<le> b \<Longrightarrow>
     int (length (py_slice xs a b)) = min b (int (length xs)) - min a (int (length xs))"
  by (auto simp: py_slice_def py_norm_def Let_def min_def)

lemma length_select_subset:
  assumes "0 \<le> c" "c < int (length lib)" "0 \<le> T" "T \<le> int (length lib)"
  shows "int (length (select_subset c T lib)) = T"
proof (cases "c + T \<le> int (length lib)")
  case True
  with assms show ?thesis
    by (simp add: select_subset_def Let_def length_py_slice min_def)
next
  case False
  with assms have "int (length (py_slice lib c (int (length lib)))) = int (length lib) - c"
    "int (length (py_slice lib 0 (T - (int (length lib) - c)))) = T - (int (length lib) - c)"
    by (simp_all add: length_py_slice min_def)
  with False assms show ?thesis
    by (simp add: select_subset_def Let_def min_def)
qed

text \<open>
  C2, at the failing input.  With four templates per pass and a library of one template
  the slice is that template twice, not min 4 1 = 1 templates, and the pass correlates it
  twice; with a library of three and the cursor at 2 the slice has four elements.
\<close>

theorem subset_repeats_in_small_library:
  "select_subset 0 4 [0..<1] = [0, 0] \<and> min (4::int) (int (length [0..<1])) = 1 \<and>
   select_subset 2 4 [0..<3] = [2, 0, 1, 2] \<and>
   evaluated (fst (snd (cycle cfg_sim True reg0 tick_none worker1))) = [0, 0]"
  by (simp add: select_subset_def py_slice_def py_norm_def Let_def upt_conv_Cons cycle_def
      cfg_sim_def cfg_click_def reg0_def tick_none_def tick_at_def worker1_def tmpl_def
      DetectorWorker_init_def advance_def frame_interval_def)

section \<open>The cursor and the window\<close>











end
